theory Spec2Isabelle
  imports Main
begin

section \<open>Python values used by FileNavigation.py\<close>

text \<open>
  Paths and labels are Python strings, modelled as \<open>string\<close> (lists of 8-bit characters).
  The exceptions that the modelled code can raise are values of \<open>exn\<close>; a function that
  may raise returns \<open>exn + 'a\<close> with \<open>Inl\<close> for the raised exception.
\<close>

type_synonym path = string

datatype exn = OSError | AttributeError | KeyError | IndexError

subsection \<open>String methods\<close>

definition startswith :: "string \<Rightarrow> string \<Rightarrow> bool" where
  "startswith s pre = (take (length pre) s = pre)"

definition endswith :: "string \<Rightarrow> string \<Rightarrow> bool" where
  "endswith s suf = (drop (length s - length suf) s = suf)"

text \<open>\<open>str.lower\<close> on the ASCII range: \<open>A\<close>..\<open>Z\<close> (65..90) move to \<open>a\<close>..\<open>z\<close>.\<close>

definition lower_char :: "char \<Rightarrow> char" where
  "lower_char c =
     (let n = (of_char c :: nat) in if 65 \<le> n \<and> n \<le> 90 then char_of (n + 32) else c)"

definition lower :: "string \<Rightarrow> string" where
  "lower s = map lower_char s"

text \<open>\<open>s.split(sep)\<close> for a one-character separator, and \<open>sep.join(comps)\<close>.\<close>

fun split :: "char \<Rightarrow> string \<Rightarrow> string list" where
  "split c [] = [[]]"
| "split c (x # xs) =
     (if x = c then [] # split c xs
      else (let r = split c xs in (x # hd r) # tl r))"

fun join_with :: "char \<Rightarrow> string list \<Rightarrow> string" where
  "join_with c [] = []"
| "join_with c [w] = w"
| "join_with c (w # v # ws) = w @ c # join_with c (v # ws)"

subsection \<open>posixpath\<close>

text \<open>
  The plugin calls \<open>os.path\<close>; the label convention of the plugin itself
  (\<open>label += '/'\<close>, \<open>name.endswith('/')\<close>) is the POSIX one, so \<open>os.path\<close> is
  \<open>posixpath\<close> here: \<open>sep = '/'\<close>, \<open>pardir = '..'\<close>, \<open>extsep = '.'\<close>.
\<close>

definition sep :: char where
  "sep = CHR ''/''"

definition pardir :: string where
  "pardir = ''..''"

definition extsep :: char where
  "extsep = CHR ''.''"

text \<open>
  \<open>posixpath.join(a, b)\<close>: an absolute \<open>b\<close> replaces \<open>a\<close>; otherwise \<open>b\<close> is appended,
  with a separator unless \<open>a\<close> is empty or already ends with one.
\<close>

definition join :: "path \<Rightarrow> path \<Rightarrow> path" where
  "join a b =
     (if startswith b [sep] then b
      else if a = [] \<or> endswith a [sep] then a @ b
      else a @ [sep] @ b)"

text \<open>
  \<open>posixpath.basename(p)\<close> is \<open>p[i:]\<close> and \<open>posixpath.dirname(p)\<close> starts from
  \<open>head = p[:i]\<close> with \<open>i = p.rfind('/') + 1\<close>; a head that is not made of separators
  only loses its trailing separators.
\<close>

definition basename :: "path \<Rightarrow> string" where
  "basename p = rev (takeWhile (\<lambda>c. c \<noteq> sep) (rev p))"

definition rstrip_sep :: "string \<Rightarrow> string" where
  "rstrip_sep s = rev (dropWhile (\<lambda>c. c = sep) (rev s))"

definition dirname :: "path \<Rightarrow> path" where
  "dirname p =
     (let head = rev (dropWhile (\<lambda>c. c \<noteq> sep) (rev p))
      in if head \<noteq> [] \<and> head \<noteq> replicate (length head) sep then rstrip_sep head else head)"

text \<open>
  \<open>posixpath.splitext(p)[1]\<close>: the extension starts at the last dot of the last path
  component, provided some character before that dot in the component is not a dot;
  otherwise the extension is empty.
\<close>

definition splitext_ext :: "path \<Rightarrow> string" where
  "splitext_ext p =
     (let name = basename p;
          upto_dot = rev (dropWhile (\<lambda>c. c \<noteq> extsep) (rev name));
          after_dot = rev (takeWhile (\<lambda>c. c \<noteq> extsep) (rev name))
      in if upto_dot \<noteq> [] \<and> (\<exists>c \<in> set (butlast upto_dot). c \<noteq> extsep)
         then extsep # after_dot else [])"

text \<open>
  \<open>posixpath.normpath\<close>. \<open>initial_slashes\<close> is 0, 1 or 2 (exactly two leading slashes
  are kept, three or more collapse to one). The loop walks the components with the list
  \<open>new_comps\<close>, appending and popping at its end.
\<close>

definition initial_slashes :: "path \<Rightarrow> nat" where
  "initial_slashes p =
     (if startswith p [sep] then
        (if startswith p [sep, sep] \<and> \<not> startswith p [sep, sep, sep] then 2 else 1)
      else 0)"

fun normpath_loop :: "nat \<Rightarrow> string list \<Rightarrow> string list \<Rightarrow> string list" where
  "normpath_loop k new_comps [] = new_comps"
| "normpath_loop k new_comps (cmp # comps) =
     (if cmp = [] \<or> cmp = ''.'' then normpath_loop k new_comps comps
      else if cmp \<noteq> pardir \<or> (k = 0 \<and> new_comps = [])
                \<or> (new_comps \<noteq> [] \<and> last new_comps = pardir)
        then normpath_loop k (new_comps @ [cmp]) comps
      else if new_comps \<noteq> [] then normpath_loop k (butlast new_comps) comps
      else normpath_loop k new_comps comps)"

definition normpath :: "path \<Rightarrow> path" where
  "normpath p =
     (if p = [] then ''.''
      else (let k = initial_slashes p;
                comps = normpath_loop k [] (split sep p);
                r = replicate k sep @ join_with sep comps
            in if r = [] then ''.'' else r))"

section \<open>The filesystem\<close>

text \<open>
  The filesystem is what the standard library reports about it. \<open>os_stat p\<close> is the result
  of \<open>os.stat(p)\<close> (which follows symbolic links), \<open>None\<close> when it raises \<open>OSError\<close>;
  \<open>glob_glob\<close> is \<open>glob.glob\<close> on a pattern, in enumeration order; \<open>getcwd\<close> is
  \<open>os.getcwd()\<close>.
\<close>

datatype file_type = S_IFREG | S_IFDIR | S_IFOTHER

record stat_result =
  st_mode :: file_type
  st_ino :: nat
  st_dev :: nat

record filesystem =
  os_stat :: "path \<Rightarrow> stat_result option"
  glob_glob :: "string \<Rightarrow> path list"
  getcwd :: path

text \<open>
  \<open>genericpath\<close>: \<open>exists\<close>, \<open>isfile\<close> and \<open>isdir\<close> catch the \<open>OSError\<close> of \<open>os.stat\<close>
  and answer \<open>False\<close>; \<open>samefile\<close> lets it through. \<open>exists\<close> is given the type of a
  call that may raise, because \<open>skip_file\<close> wraps it in a handler; it always returns.
\<close>

definition exists :: "filesystem \<Rightarrow> path \<Rightarrow> exn + bool" where
  "exists fs p = (case os_stat fs p of None \<Rightarrow> Inr False | Some st \<Rightarrow> Inr True)"

definition isfile :: "filesystem \<Rightarrow> path \<Rightarrow> bool" where
  "isfile fs p = (case os_stat fs p of None \<Rightarrow> False | Some st \<Rightarrow> st_mode st = S_IFREG)"

definition isdir :: "filesystem \<Rightarrow> path \<Rightarrow> bool" where
  "isdir fs p = (case os_stat fs p of None \<Rightarrow> False | Some st \<Rightarrow> st_mode st = S_IFDIR)"

definition samefile :: "filesystem \<Rightarrow> path \<Rightarrow> path \<Rightarrow> exn + bool" where
  "samefile fs f1 f2 =
     (case os_stat fs f1 of
        None \<Rightarrow> Inl OSError
      | Some s1 \<Rightarrow>
          (case os_stat fs f2 of
             None \<Rightarrow> Inl OSError
           | Some s2 \<Rightarrow> Inr (st_ino s1 = st_ino s2 \<and> st_dev s1 = st_dev s2)))"

definition abspath :: "filesystem \<Rightarrow> path \<Rightarrow> path" where
  "abspath fs p = normpath (if startswith p [sep] then p else join (getcwd fs) p)"

section \<open>The host editor\<close>

text \<open>
  A view is identified by its id (Sublime compares views by \<open>view_id\<close>, and a view with id 0
  is falsy). A \<open>window\<close> holds the answers of the host to the queries the plugin makes
  during one callback; the calls that change the host are recorded, in order, as
  \<open>host_call\<close>s.
\<close>

type_synonym view = nat

type_synonym entry = "string \<times> path"

record window =
  active_view :: "view option"
  get_view_index :: "view \<Rightarrow> int \<times> int"
  views :: "view list"
  file_name :: "view \<Rightarrow> path option"
  find_open_file :: "path \<Rightarrow> view option"
  active_group :: int
  transient_view_in_group :: "int \<Rightarrow> view option"
  open_file :: "path \<Rightarrow> view"

datatype host_call =
    OpenFile path bool
  | FocusView "view option"
  | RunCommand string
  | SetViewIndex view int int
  | ShowQuickPanel "entry list" path int
  | SetTimeoutAsync path

text \<open>
  \<open>OpenFile p t\<close> is \<open>window.open_file(p)\<close>, with \<open>sublime.TRANSIENT\<close> when \<open>t\<close>;
  \<open>ShowQuickPanel items cwd i\<close> is \<open>show_quick_panel\<close> with the two callbacks bound to
  \<open>cwd\<close> and \<open>selected_index = i\<close>; \<open>SetTimeoutAsync s\<close> schedules \<open>navigate(s)\<close>.
\<close>

section \<open>FileNavigationHelper\<close>

text \<open>
  The functions below take and return the state of the singleton that
  \<open>FileNavigationHelper.instance()\<close> hands out; its construction on first use (loading the
  settings, then \<open>reset\<close>) is taken as done. The fields of the singleton: \<open>calling_view_index\<close> is assigned by \<open>track_calling_view\<close>
  only: \<open>None\<close> means the attribute does not exist yet. \<open>calling_view_is_empty\<close> is \<open>None\<close>,
  \<open>True\<close> or \<open>False\<close> as in the source. \<open>file_navigation_active\<close> is the setting of that
  name in the settings object the helper holds: \<open>True\<close> when set, \<open>False\<close> when erased.
\<close>

record helper =
  excluded_extensions :: "string list"
  calling_view :: "view option"
  calling_view_index :: "(int \<times> int) option"
  calling_view_is_empty :: "bool option"
  preview_file_path :: "path option"
  file_navigation_active :: bool

definition track_calling_view :: "helper \<Rightarrow> window \<Rightarrow> exn + (helper \<times> path option)" where
  "track_calling_view h w =
     (case active_view w of
        None \<Rightarrow> Inl AttributeError
      | Some v \<Rightarrow>
          Inr (h\<lparr>calling_view := Some v,
                 calling_view_index := Some (get_view_index w v),
                 calling_view_is_empty := Some (length (views w) = 0)\<rparr>,
               file_name w v))"

definition get_current_view_index :: "helper \<Rightarrow> exn + (int \<times> int)" where
  "get_current_view_index h =
     (if calling_view_is_empty h = Some True then Inr (0, -1)
      else (case calling_view_index h of None \<Rightarrow> Inl AttributeError | Some ix \<Rightarrow> Inr ix))"

definition set_plugin_visibility :: "helper \<Rightarrow> bool \<Rightarrow> helper" where
  "set_plugin_visibility h is_active =
     (if is_active then h\<lparr>file_navigation_active := True\<rparr>
      else h\<lparr>file_navigation_active := False\<rparr>)"

definition set_preview :: "helper \<Rightarrow> path \<Rightarrow> helper" where
  "set_preview h file_path = set_plugin_visibility (h\<lparr>preview_file_path := Some file_path\<rparr>) True"

definition get_preview_path :: "helper \<Rightarrow> path option" where
  "get_preview_path h = preview_file_path h"

definition reset :: "helper \<Rightarrow> helper" where
  "reset h =
     set_plugin_visibility
       (h\<lparr>preview_file_path := None, calling_view := None, calling_view_is_empty := None\<rparr>)
       False"

definition show_calling_view :: "helper \<Rightarrow> host_call list" where
  "show_calling_view h =
     (if calling_view_is_empty h = Some True then [RunCommand ''close_file'']
      else [FocusView (calling_view h)])"

definition get_dir_from_path :: "filesystem \<Rightarrow> path \<Rightarrow> path" where
  "get_dir_from_path fs current_file =
     normpath (if isfile fs current_file then dirname current_file else current_file)"

text \<open>
  \<open>is_same_file\<close> and \<open>skip_file\<close> are a \<open>try\<close> with a handler for \<open>OSError\<close>, the only
  exception the wrapped call can raise here. In \<open>skip_file\<close>, \<open>skip\<close> starts \<open>False\<close>, is
  set to \<open>False\<close> when the path exists and to \<open>True\<close> in the handler.
\<close>

definition is_same_file :: "filesystem \<Rightarrow> path \<Rightarrow> path \<Rightarrow> bool" where
  "is_same_file fs file_path other_file_path =
     (case samefile fs file_path other_file_path of
        Inr same \<Rightarrow> (if same then True else False)
      | Inl e \<Rightarrow> False)"

definition skip_file :: "filesystem \<Rightarrow> path \<Rightarrow> bool" where
  "skip_file fs file_path =
     (case exists fs file_path of
        Inr found \<Rightarrow> (if found then False else False)
      | Inl e \<Rightarrow> True)"

text \<open>
  The first loop of \<open>get_listing\<close> iterates over \<open>dir_listing\<close> while removing from it.
  A Python \<open>for\<close> over a list reads index \<open>i\<close> of the list as it is at that moment and
  stops when \<open>i\<close> reaches its length; \<open>list.remove\<close> deletes the first equal element.
\<close>

function exclude_loop :: "string list \<Rightarrow> path list \<Rightarrow> nat \<Rightarrow> path list" where
  "exclude_loop excluded dir_listing i =
     (if i < length dir_listing then
        (let file_path = dir_listing ! i;
             extension = ''*'' @ lower (splitext_ext file_path)
         in if extension \<in> set excluded
            then exclude_loop excluded (remove1 file_path dir_listing) (Suc i)
            else exclude_loop excluded dir_listing (Suc i))
      else dir_listing)"
  by pat_completeness auto
termination
  by (relation "measure (\<lambda>(excluded, dir_listing, i). length dir_listing - i)")
     (auto simp: length_remove1)

declare exclude_loop.simps [simp del]

text \<open>The entry appended for one child (lines 93 to 96).\<close>

definition file_entry :: "filesystem \<Rightarrow> path \<Rightarrow> entry" where
  "file_entry fs file_path =
     (let label = basename file_path;
          label = (if isdir fs file_path then label @ ''/'' else label)
      in (label, get_dir_from_path fs file_path))"

text \<open>The second loop: the entries of the children that are neither skipped nor the current file.\<close>

fun add_files :: "filesystem \<Rightarrow> path \<Rightarrow> path list \<Rightarrow> entry list" where
  "add_files fs current_file [] = []"
| "add_files fs current_file (file_path # rest) =
     (if skip_file fs file_path then add_files fs current_file rest
      else if is_same_file fs file_path current_file then add_files fs current_file rest
      else file_entry fs file_path # add_files fs current_file rest)"

definition get_listing :: "helper \<Rightarrow> filesystem \<Rightarrow> path \<Rightarrow> exn + (path \<rightharpoonup> entry list)" where
  "get_listing h fs current_file =
     (let path = get_dir_from_path fs current_file;
          dir_listing = glob_glob fs (join path ''*'');
          dir_listing = exclude_loop (excluded_extensions h) dir_listing 0;
          parent = abspath fs (join path pardir)
      in case samefile fs path parent of
           Inl e \<Rightarrow> Inl e
         | Inr same \<Rightarrow>
             Inr [current_file \<mapsto>
                    (if \<not> same then [(pardir, parent)] else [])
                    @ add_files fs current_file dir_listing])"

section \<open>The commands\<close>

definition get_path :: "entry \<Rightarrow> path" where
  "get_path stack_entry =
     (let name = fst stack_entry; directory = snd stack_entry
      in if name = pardir \<or> endswith name ''/'' then directory else join directory name)"

text \<open>\<open>self.stack[path][selected_index]\<close> for a non-negative index.\<close>

definition stack_item :: "(path \<rightharpoonup> entry list) \<Rightarrow> path \<Rightarrow> int \<Rightarrow> exn + entry" where
  "stack_item stack p selected_index =
     (case stack p of
        None \<Rightarrow> Inl KeyError
      | Some items \<Rightarrow>
          (if nat selected_index < length items then Inr (items ! nat selected_index)
           else Inl IndexError))"

definition quick_open_run :: "helper \<Rightarrow> window \<Rightarrow> filesystem \<Rightarrow> exn + (helper \<times> host_call list)" where
  "quick_open_run h w fs =
     (case get_preview_path h of
        None \<Rightarrow> Inr (h, [])
      | Some file_path \<Rightarrow>
          (if file_path = [] \<or> \<not> isfile fs file_path then Inr (h, [])
           else (let v = find_open_file w file_path
                 in if v = transient_view_in_group w (active_group w) \<or> v = None \<or> v = Some 0
                    then (case get_current_view_index h of
                            Inl e \<Rightarrow> Inl e
                          | Inr (grp, index) \<Rightarrow>
                              Inr (h, [OpenFile file_path False,
                                       SetViewIndex (open_file w file_path) grp (index + 1)]))
                    else Inr (h, []))))"

definition navigate ::
  "helper \<Rightarrow> filesystem \<Rightarrow> path \<Rightarrow> exn + ((path \<rightharpoonup> entry list) \<times> host_call list)" where
  "navigate h fs path_to_navigate =
     (case get_listing h fs path_to_navigate of
        Inl e \<Rightarrow> Inl e
      | Inr stack \<Rightarrow>
          (case stack path_to_navigate of
             None \<Rightarrow> Inl KeyError
           | Some items \<Rightarrow> Inr (stack, [ShowQuickPanel items path_to_navigate 0])))"

definition run ::
  "helper \<Rightarrow> window \<Rightarrow> filesystem \<Rightarrow>
     exn + (helper \<times> (path \<rightharpoonup> entry list) \<times> host_call list)" where
  "run h w fs =
     (case track_calling_view h w of
        Inl e \<Rightarrow> Inl e
      | Inr (h', current_file) \<Rightarrow>
          (let current_file =
                 (case current_file of
                    None \<Rightarrow> getcwd fs
                  | Some f \<Rightarrow> if f = [] then getcwd fs else f)
           in case navigate h' fs current_file of
                Inl e \<Rightarrow> Inl e
              | Inr (stack, calls) \<Rightarrow> Inr (h', stack, calls)))"

definition open_selected_file ::
  "helper \<Rightarrow> filesystem \<Rightarrow> (path \<rightharpoonup> entry list) \<Rightarrow> path \<Rightarrow> int \<Rightarrow>
     exn + (helper \<times> host_call list)" where
  "open_selected_file h fs stack p selected_index =
     (if selected_index < 0 then Inr (reset h, show_calling_view h)
      else (case stack_item stack p selected_index of
              Inl e \<Rightarrow> Inl e
            | Inr item \<Rightarrow>
                (let file_path = get_path item
                 in if isfile fs file_path then Inr (reset h, [OpenFile file_path False])
                    else Inr (h, show_calling_view h @ [SetTimeoutAsync file_path]))))"

definition show_preview ::
  "helper \<Rightarrow> filesystem \<Rightarrow> (path \<rightharpoonup> entry list) \<Rightarrow> path \<Rightarrow> int \<Rightarrow>
     exn + (helper \<times> host_call list)" where
  "show_preview h fs stack p selected_index =
     (if selected_index \<ge> 0 then
        (case stack_item stack p selected_index of
           Inl e \<Rightarrow> Inl e
         | Inr item \<Rightarrow>
             (let file_path = get_path item; h' = set_preview h file_path
              in if isfile fs file_path then Inr (h', [OpenFile file_path True])
                 else Inr (h', show_calling_view h')))
      else Inr (h, []))"

section \<open>Concrete filesystems, windows and helper states\<close>

text \<open>
  The inputs at which the theorems below are evaluated. \<open>tree_fs\<close> is the scenario of the
  specification: directory \<open>/a\<close> holds the directory \<open>/a/b\<close> and the file \<open>/a/c.txt\<close>.
\<close>

definition mk_stat :: "file_type \<Rightarrow> nat \<Rightarrow> stat_result" where
  "mk_stat m i = \<lparr>st_mode = m, st_ino = i, st_dev = 0\<rparr>"

definition tree_fs :: filesystem where
  "tree_fs =
     \<lparr>os_stat = (\<lambda>p. if p = ''/'' then Some (mk_stat S_IFDIR 1)
                     else if p = ''/a'' then Some (mk_stat S_IFDIR 2)
                     else if p = ''/a/b'' then Some (mk_stat S_IFDIR 3)
                     else if p = ''/a/c.txt'' then Some (mk_stat S_IFREG 4)
                     else None),
      glob_glob = (\<lambda>pat. if pat = ''/a/*'' then [''/a/b'', ''/a/c.txt'']
                         else if pat = ''/*'' then [''/a''] else []),
      getcwd = ''/''\<rparr>"

text \<open>A helper in the middle of a session started from view 7 at slot \<open>(0, 2)\<close>.\<close>

definition session_helper :: helper where
  "session_helper =
     \<lparr>excluded_extensions = [''*.png''], calling_view = Some 7,
      calling_view_index = Some (0, 2), calling_view_is_empty = Some False,
      preview_file_path = Some ''/a/c.txt'', file_navigation_active = True\<rparr>"

text \<open>A helper as \<open>__init__\<close> leaves it.\<close>

definition fresh_helper :: helper where
  "fresh_helper =
     \<lparr>excluded_extensions = [''*.png''], calling_view = None,
      calling_view_index = None, calling_view_is_empty = None,
      preview_file_path = None, file_navigation_active = False\<rparr>"

text \<open>A window without any tab: \<open>active_view()\<close> is \<open>None\<close> and \<open>views()\<close> is empty.\<close>

definition no_tab_window :: window where
  "no_tab_window =
     \<lparr>active_view = None, get_view_index = (\<lambda>v. (-1, -1)), views = [],
      file_name = (\<lambda>v. None), find_open_file = (\<lambda>p. None), active_group = 0,
      transient_view_in_group = (\<lambda>g. None), open_file = (\<lambda>p. 1)\<rparr>"

text \<open>
  A window during a preview: view 7 is the tab the session started from, view 9 is the
  transient tab that shows \<open>/a/c.txt\<close>.
\<close>

definition preview_window :: window where
  "preview_window =
     \<lparr>active_view = Some 9, get_view_index = (\<lambda>v. if v = 7 then (0, 2) else (0, 3)),
      views = [5, 6, 7, 9],
      file_name = (\<lambda>v. if v = 9 then Some ''/a/c.txt'' else None),
      find_open_file = (\<lambda>p. if p = ''/a/c.txt'' then Some 9 else None), active_group = 0,
      transient_view_in_group = (\<lambda>g. if g = 0 then Some 9 else None),
      open_file = (\<lambda>p. 9)\<rparr>"

definition tree_stack :: "path \<rightharpoonup> entry list" where
  "tree_stack = [''/a'' \<mapsto> [(''..'', ''/''), (''b/'', ''/a/b''), (''c.txt'', ''/a'')]]"

text \<open>
  \<open>png_fs\<close>: directory \<open>/d\<close> with two images next to each other in enumeration order.
  \<open>dangling_fs\<close>: directory \<open>/d\<close> with a broken symbolic link (\<open>os.stat\<close> raises on it)
  and a file. \<open>loop_fs\<close>: directory \<open>/a\<close> with a file and a symbolic link \<open>self\<close> to
  \<open>/a\<close> itself (same inode as \<open>/a\<close>).
\<close>

definition png_fs :: filesystem where
  "png_fs =
     \<lparr>os_stat = (\<lambda>p. if p = ''/'' then Some (mk_stat S_IFDIR 1)
                     else if p = ''/d'' then Some (mk_stat S_IFDIR 2)
                     else if p = ''/d/a.png'' then Some (mk_stat S_IFREG 3)
                     else if p = ''/d/b.png'' then Some (mk_stat S_IFREG 4)
                     else None),
      glob_glob = (\<lambda>pat. if pat = ''/d/*'' then [''/d/a.png'', ''/d/b.png''] else []),
      getcwd = ''/''\<rparr>"

definition dangling_fs :: filesystem where
  "dangling_fs =
     \<lparr>os_stat = (\<lambda>p. if p = ''/'' then Some (mk_stat S_IFDIR 1)
                     else if p = ''/d'' then Some (mk_stat S_IFDIR 2)
                     else if p = ''/d/x.txt'' then Some (mk_stat S_IFREG 3)
                     else None),
      glob_glob = (\<lambda>pat. if pat = ''/d/*'' then [''/d/dangling'', ''/d/x.txt''] else []),
      getcwd = ''/''\<rparr>"

definition loop_fs :: filesystem where
  "loop_fs =
     \<lparr>os_stat = (\<lambda>p. if p = ''/'' then Some (mk_stat S_IFDIR 1)
                     else if p = ''/a'' then Some (mk_stat S_IFDIR 2)
                     else if p = ''/a/f.txt'' then Some (mk_stat S_IFREG 3)
                     else if p = ''/a/self'' then Some (mk_stat S_IFDIR 2)
                     else None),
      glob_glob = (\<lambda>pat. if pat = ''/a/*'' then [''/a/f.txt'', ''/a/self''] else []),
      getcwd = ''/''\<rparr>"

section \<open>Auxiliary notions\<close>

text \<open>
  The children that remain in \<open>dir_listing\<close> after the first loop of \<open>get_listing\<close>, for
  the resolved directory \<open>dir\<close>.
\<close>

definition shown_children :: "helper \<Rightarrow> filesystem \<Rightarrow> path \<Rightarrow> path list" where
  "shown_children h fs dir =
     exclude_loop (excluded_extensions h) (glob_glob fs (join dir ''*'')) 0"

text \<open>
  The shape of the component list that \<open>normpath\<close> builds: no empty component, no \<open>.\<close>,
  no separator inside a component, and \<open>..\<close> only in front (and not at all under an
  absolute path, \<open>k \<noteq> 0\<close>).
\<close>

fun dotdots_first :: "string list \<Rightarrow> bool" where
  "dotdots_first [] = True"
| "dotdots_first (c # cs) = (if c = pardir then dotdots_first cs else pardir \<notin> set cs)"

definition normal_comps :: "nat \<Rightarrow> string list \<Rightarrow> bool" where
  "normal_comps k cs =
     ((\<forall>c \<in> set cs. c \<noteq> [] \<and> c \<noteq> ''.'' \<and> sep \<notin> set c)
      \<and> (k \<noteq> 0 \<longrightarrow> pardir \<notin> set cs) \<and> dotdots_first cs)"

section \<open>Paths\<close>

subsection \<open>The loop of normpath\<close>

lemma dotdots_first_snoc_plain:
  "dotdots_first acc \<Longrightarrow> c \<noteq> pardir \<Longrightarrow> dotdots_first (acc @ [c])"
  by (induction acc) auto

lemma dotdots_first_all_pardir:
  "set acc \<subseteq> {pardir} \<Longrightarrow> dotdots_first (acc @ [pardir])"
  by (induction acc) auto

lemma dotdots_first_last_pardir:
  "dotdots_first acc \<Longrightarrow> acc \<noteq> [] \<Longrightarrow> last acc = pardir \<Longrightarrow> set acc \<subseteq> {pardir}"
proof (induction acc)
  case Nil
  then show ?case by simp
next
  case (Cons a acc)
  show ?case
  proof (cases "acc = []")
    case True
    then show ?thesis using Cons.prems by simp
  next
    case False
    then have "last acc = pardir" using Cons.prems by simp
    then have "pardir \<in> set acc" using False last_in_set [of acc] by simp
    then show ?thesis using Cons False \<open>last acc = pardir\<close> by (auto split: if_splits)
  qed
qed

lemma dotdots_first_butlast: "dotdots_first acc \<Longrightarrow> dotdots_first (butlast acc)"
  by (induction acc) (auto dest: in_set_butlastD)

lemma dotdots_first_before_pardir:
  "dotdots_first (xs @ pardir # ys) \<Longrightarrow> set xs \<subseteq> {pardir}"
  by (induction xs) (auto split: if_splits)

lemma normpath_loop_normal:
  assumes "normal_comps k acc" and "\<forall>c \<in> set cs. sep \<notin> set c"
  shows "normal_comps k (normpath_loop k acc cs)"
  using assms
proof (induction cs arbitrary: acc)
  case Nil
  then show ?case by simp
next
  case (Cons c cs)
  have rest: "\<forall>c \<in> set cs. sep \<notin> set c" and c_sep: "sep \<notin> set c"
    using Cons.prems(2) by simp_all
  consider (skip) "c = [] \<or> c = ''.''"
    | (push_plain) "c \<noteq> []" "c \<noteq> ''.''" "c \<noteq> pardir"
    | (push_dots) "c = pardir" "(k = 0 \<and> acc = []) \<or> (acc \<noteq> [] \<and> last acc = pardir)"
    | (pop) "c = pardir" "\<not> ((k = 0 \<and> acc = []) \<or> (acc \<noteq> [] \<and> last acc = pardir))" "acc \<noteq> []"
    | (stay) "c = pardir" "\<not> ((k = 0 \<and> acc = []) \<or> (acc \<noteq> [] \<and> last acc = pardir))" "acc = []"
    by blast
  then show ?case
  proof cases
    case skip
    then show ?thesis using Cons.IH [OF Cons.prems(1) rest] by auto
  next
    case push_plain
    have "normal_comps k (acc @ [c])"
      using Cons.prems(1) push_plain c_sep
      by (auto simp: normal_comps_def dotdots_first_snoc_plain)
    from Cons.IH [OF this rest] show ?thesis using push_plain by simp
  next
    case push_dots
    have all: "set acc \<subseteq> {pardir}"
      using push_dots(2) Cons.prems(1) dotdots_first_last_pardir [of acc]
      by (auto simp: normal_comps_def)
    have k0: "k = 0"
    proof (cases "acc = []")
      case True
      then show ?thesis using push_dots(2) by simp
    next
      case False
      then have "pardir \<in> set acc" using push_dots(2) last_in_set [of acc] by auto
      then show ?thesis using Cons.prems(1) by (auto simp: normal_comps_def)
    qed
    have "normal_comps k (acc @ [c])"
      using Cons.prems(1) push_dots(1) k0 dotdots_first_all_pardir [OF all]
      by (auto simp: normal_comps_def pardir_def sep_def)
    from Cons.IH [OF this rest] show ?thesis using push_dots by (auto simp: pardir_def)
  next
    case pop
    have "normal_comps k (butlast acc)"
      using Cons.prems(1) by (auto simp: normal_comps_def dotdots_first_butlast dest: in_set_butlastD)
    from Cons.IH [OF this rest] show ?thesis using pop by (auto simp: pardir_def)
  next
    case stay
    from Cons.IH [OF Cons.prems(1) rest] show ?thesis using stay by (auto simp: pardir_def)
  qed
qed

lemma normpath_loop_fixed:
  assumes "normal_comps k (acc @ cs)"
  shows "normpath_loop k acc cs = acc @ cs"
  using assms
proof (induction cs arbitrary: acc)
  case Nil
  then show ?case by simp
next
  case (Cons c cs)
  have next_ok: "normal_comps k ((acc @ [c]) @ cs)" using Cons.prems by simp
  have c_ok: "c \<noteq> []" "c \<noteq> ''.''" using Cons.prems by (auto simp: normal_comps_def)
  show ?case
  proof (cases "c = pardir")
    case False
    then show ?thesis using Cons.IH [OF next_ok] c_ok by simp
  next
    case True
    have "set acc \<subseteq> {pardir}"
      using Cons.prems True dotdots_first_before_pardir [of acc cs] by (simp add: normal_comps_def)
    then have "acc = [] \<or> last acc = pardir" using last_in_set [of acc] by blast
    moreover have "k = 0" using Cons.prems True by (auto simp: normal_comps_def)
    ultimately show ?thesis using Cons.IH [OF next_ok] c_ok True by auto
  qed
qed

lemma split_no_sep: "c \<notin> set w \<Longrightarrow> split c w = [w]"
  by (induction w) (auto simp: Let_def)

lemma split_append_sep: "c \<notin> set w \<Longrightarrow> split c (w @ c # rest) = w # split c rest"
  by (induction w) (auto simp: Let_def)

lemma split_join_with:
  "cs \<noteq> [] \<Longrightarrow> \<forall>w \<in> set cs. c \<notin> set w \<Longrightarrow> split c (join_with c cs) = cs"
  by (induction c cs rule: join_with.induct) (auto simp: split_no_sep split_append_sep)

lemma split_not_Nil: "split c s \<noteq> []"
  by (induction s) (auto simp: Let_def)

lemma split_components_no_sep: "w \<in> set (split c s) \<Longrightarrow> c \<notin> set w"
proof (induction s arbitrary: w)
  case Nil
  then show ?case by simp
next
  case (Cons x s)
  obtain v vs where vs: "split c s = v # vs"
    using split_not_Nil [of c s] by (cases "split c s") auto
  show ?case
  proof (cases "x = c")
    case True
    then show ?thesis using Cons by auto
  next
    case False
    then have "w = x # v \<or> w \<in> set vs" using Cons.prems vs by (simp add: Let_def)
    then show ?thesis using Cons.IH vs False by auto
  qed
qed

lemma split_replicate_sep: "split c (replicate k c @ s) = replicate k [] @ split c s"
  by (induction k) auto

lemma normpath_loop_skip_empty: "normpath_loop k acc (replicate n [] @ cs) = normpath_loop k acc cs"
  by (induction n) auto

subsection \<open>normpath is idempotent\<close>

lemma endswith_last: "endswith s [c] \<longleftrightarrow> s \<noteq> [] \<and> last s = c"
proof (cases s rule: rev_cases)
  case Nil
  then show ?thesis by (simp add: endswith_def)
next
  case (snoc ys y)
  then show ?thesis by (simp add: endswith_def)
qed

lemma join_with_nonempty:
  "cs \<noteq> [] \<Longrightarrow> \<forall>w \<in> set cs. w \<noteq> [] \<Longrightarrow> join_with c cs \<noteq> []"
  by (induction c cs rule: join_with.induct) auto

lemma hd_join_with:
  "cs \<noteq> [] \<Longrightarrow> hd cs \<noteq> [] \<Longrightarrow> hd (join_with c cs) = hd (hd cs)"
  by (induction c cs rule: join_with.induct) auto

lemma join_with_Nil: "join_with c cs = [] \<Longrightarrow> cs = [] \<or> cs = [[]]"
  by (induction c cs rule: join_with.induct) auto

lemma last_join_with:
  "cs \<noteq> [] \<Longrightarrow> last cs \<noteq> [] \<Longrightarrow> last (join_with c cs) = last (last cs)"
proof (induction c cs rule: join_with.induct)
  case (3 c w v ws)
  have "join_with c (v # ws) \<noteq> []"
    using join_with_Nil [of c "v # ws"] "3.prems" by auto
  then show ?case using 3 by simp
qed simp_all

lemma normal_comps_Nil [simp]: "normal_comps k []"
  by (simp add: normal_comps_def)

lemma normal_join_hd:
  assumes "normal_comps k cs" "cs \<noteq> []"
  shows "join_with sep cs \<noteq> []" "hd (join_with sep cs) \<noteq> sep" "last (join_with sep cs) \<noteq> sep"
proof -
  have ne: "\<forall>w \<in> set cs. w \<noteq> []" using assms by (auto simp: normal_comps_def)
  show "join_with sep cs \<noteq> []" using join_with_nonempty [OF assms(2) ne] .
  have h: "hd cs \<in> set cs" "last cs \<in> set cs" using assms(2) by simp_all
  then have "hd cs \<noteq> []" "sep \<notin> set (hd cs)" "last cs \<noteq> []" "sep \<notin> set (last cs)"
    using assms(1) by (auto simp: normal_comps_def)
  moreover have "hd (hd cs) \<in> set (hd cs)" "last (last cs) \<in> set (last cs)"
    using \<open>hd cs \<noteq> []\<close> \<open>last cs \<noteq> []\<close> by simp_all
  ultimately have "hd (hd cs) \<noteq> sep" "last (last cs) \<noteq> sep"
    by metis+
  then show "hd (join_with sep cs) \<noteq> sep" "last (join_with sep cs) \<noteq> sep"
    using hd_join_with [OF assms(2), of sep] last_join_with [OF assms(2), of sep]
      \<open>hd cs \<noteq> []\<close> \<open>last cs \<noteq> []\<close> by auto
qed

lemma initial_slashes_le: "initial_slashes p \<le> 2"
  by (simp add: initial_slashes_def)

lemma initial_slashes_replicate:
  assumes "k \<le> 2" and "s = [] \<or> hd s \<noteq> sep"
  shows "initial_slashes (replicate k sep @ s) = k"
proof -
  have "k = 0 \<or> k = 1 \<or> k = 2" using assms(1) by arith
  then show ?thesis using assms(2)
    by (cases s) (auto simp: initial_slashes_def startswith_def numeral_2_eq_2)
qed

lemma normpath_normal_form:
  assumes "k \<le> 2" and "normal_comps k cs" and "0 < k \<or> cs \<noteq> []"
  shows "normpath (replicate k sep @ join_with sep cs) = replicate k sep @ join_with sep cs"
proof (cases "cs = []")
  case True
  then have k: "0 < k" using assms(3) by simp
  have isl: "initial_slashes (replicate k sep @ []) = k"
    using initial_slashes_replicate [OF assms(1), of "[]"] by simp
  have sp: "split sep (replicate k sep @ []) = replicate k [] @ [[]]"
    using split_replicate_sep [of sep k "[]"] by simp
  have lp: "normpath_loop k [] (replicate k [] @ [[]]) = []"
    by (simp add: normpath_loop_skip_empty)
  show ?thesis using True k isl sp lp by (simp add: normpath_def Let_def)
next
  case False
  let ?j = "join_with sep cs"
  have j: "?j \<noteq> []" "hd ?j \<noteq> sep" using normal_join_hd [OF assms(2) False] by simp_all
  have isl: "initial_slashes (replicate k sep @ ?j) = k"
    using initial_slashes_replicate [OF assms(1), of ?j] j by simp
  have "\<forall>w \<in> set cs. sep \<notin> set w" using assms(2) by (simp add: normal_comps_def)
  then have sp: "split sep (replicate k sep @ ?j) = replicate k [] @ cs"
    using split_join_with [OF False, of sep] by (simp add: split_replicate_sep)
  have lp: "normpath_loop k [] (replicate k [] @ cs) = cs"
    using normpath_loop_fixed [of k "[]" cs] assms(2) by (simp add: normpath_loop_skip_empty)
  show ?thesis using j isl sp lp by (simp add: normpath_def Let_def)
qed

lemma normpath_dot: "normpath ''.'' = ''.''"
  by (simp add: normpath_def initial_slashes_def startswith_def sep_def Let_def)

lemma normpath_cases:
  "normpath p = ''.'' \<or>
   (\<exists>k cs. k \<le> 2 \<and> normal_comps k cs \<and> (0 < k \<or> cs \<noteq> [])
      \<and> normpath p = replicate k sep @ join_with sep cs)"
proof (cases "p = []")
  case True
  then show ?thesis by (simp add: normpath_def)
next
  case False
  define k where "k = initial_slashes p"
  define cs where "cs = normpath_loop k [] (split sep p)"
  define r where "r = replicate k sep @ join_with sep cs"
  have n: "normal_comps k cs"
    unfolding cs_def
    using normpath_loop_normal [of k "[]" "split sep p"] split_components_no_sep [of _ sep p]
    by simp
  have k2: "k \<le> 2" unfolding k_def by (rule initial_slashes_le)
  have eq: "normpath p = (if r = [] then ''.'' else r)"
    unfolding r_def cs_def k_def using False by (simp only: normpath_def Let_def if_False)
  show ?thesis
  proof (cases "r = []")
    case True
    then have "normpath p = ''.''" using eq by simp
    then show ?thesis by blast
  next
    case ne: False
    then have "0 < k \<or> cs \<noteq> []" unfolding r_def by auto
    moreover have "normpath p = replicate k sep @ join_with sep cs"
      using eq ne unfolding r_def by simp
    ultimately show ?thesis using n k2 by blast
  qed
qed

lemma normpath_idempotent: "normpath (normpath p) = normpath p"
proof -
  from normpath_cases [of p] show ?thesis
  proof
    assume "normpath p = ''.''"
    then show ?thesis by (simp add: normpath_dot)
  next
    assume "\<exists>k cs. k \<le> 2 \<and> normal_comps k cs \<and> (0 < k \<or> cs \<noteq> [])
      \<and> normpath p = replicate k sep @ join_with sep cs"
    then obtain k cs where "k \<le> 2" "normal_comps k cs" "0 < k \<or> cs \<noteq> []"
      "normpath p = replicate k sep @ join_with sep cs" by blast
    then show ?thesis using normpath_normal_form [of k cs] by simp
  qed
qed

lemma normpath_nonempty: "normpath p \<noteq> []"
proof -
  from normpath_cases [of p] show ?thesis
  proof
    assume "normpath p = ''.''"
    then show ?thesis by simp
  next
    assume "\<exists>k cs. k \<le> 2 \<and> normal_comps k cs \<and> (0 < k \<or> cs \<noteq> [])
      \<and> normpath p = replicate k sep @ join_with sep cs"
    then obtain k cs where kc: "normal_comps k cs" "0 < k \<or> cs \<noteq> []"
      "normpath p = replicate k sep @ join_with sep cs" by blast
    show ?thesis
    proof (cases "cs = []")
      case True
      then show ?thesis using kc by simp
    next
      case False
      then show ?thesis using normal_join_hd(1) [OF kc(1) False] kc(3) by simp
    qed
  qed
qed

lemma normpath_trailing_sep:
  assumes "endswith (normpath p) [sep]"
  shows "normpath p = replicate (length (normpath p)) sep"
proof -
  have nonempty: "normpath p \<noteq> []" by (rule normpath_nonempty)
  then have last_sep: "last (normpath p) = sep"
    using assms endswith_last [of "normpath p" sep] by simp
  from normpath_cases [of p] show ?thesis
  proof
    assume "normpath p = ''.''"
    then show ?thesis using last_sep by (simp add: sep_def)
  next
    assume "\<exists>k cs. k \<le> 2 \<and> normal_comps k cs \<and> (0 < k \<or> cs \<noteq> [])
      \<and> normpath p = replicate k sep @ join_with sep cs"
    then obtain k cs where kc: "normal_comps k cs" "normpath p = replicate k sep @ join_with sep cs"
      by blast
    have "cs = []"
    proof (rule ccontr)
      assume "cs \<noteq> []"
      from normal_join_hd [OF kc(1) this] show False using last_sep kc(2) by simp
    qed
    then show ?thesis using kc(2) by simp
  qed
qed

subsection \<open>Children of a normalised directory\<close>

lemma takeWhile_rev_name:
  "c \<notin> set n \<Longrightarrow> takeWhile (\<lambda>x. x \<noteq> c) (rev n @ c # t) = rev n"
  by (induction n rule: rev_induct) auto

lemma dropWhile_rev_name:
  "c \<notin> set n \<Longrightarrow> dropWhile (\<lambda>x. x \<noteq> c) (rev n @ c # t) = c # t"
  by (induction n rule: rev_induct) auto

lemma basename_append: "sep \<notin> set n \<Longrightarrow> basename (x @ sep # n) = n"
  by (simp add: basename_def takeWhile_rev_name)

lemma dirname_head: 
  "sep \<notin> set n \<Longrightarrow>
   dirname (x @ sep # n) =
     (if x @ [sep] \<noteq> replicate (Suc (length x)) sep then rstrip_sep (x @ [sep]) else x @ [sep])"
  by (simp add: dirname_def dropWhile_rev_name Let_def)

lemma rstrip_sep_snoc: "x \<noteq> [] \<Longrightarrow> last x \<noteq> sep \<Longrightarrow> rstrip_sep (x @ [sep]) = x"
  by (cases x rule: rev_cases) (simp_all add: rstrip_sep_def)

lemma join_child:
  assumes "n \<noteq> []" and "sep \<notin> set n" and "r \<noteq> []"
  shows "join r n = (if last r = sep then r @ n else r @ sep # n)"
proof -
  have "\<not> startswith n [sep]" using assms(1,2) by (cases n) (auto simp: startswith_def)
  then show ?thesis using assms(3) by (simp add: join_def endswith_last)
qed

lemma dirname_child_slashes:
  assumes "n \<noteq> []" and "sep \<notin> set n" and "r \<noteq> []" and "r = replicate (length r) sep"
  shows "dirname (join r n) = r"
proof -
  obtain x where x: "r = x @ [sep]"
    using assms(3,4) by (metis append_butlast_last_id last_replicate length_0_conv)
  have l: "last r = sep" using x by simp
  have j: "join r n = x @ sep # n" using join_child [OF assms(1,2,3)] l x by simp
  have "x @ [sep] = replicate (Suc (length x)) sep" using assms(4) x by simp
  then have "dirname (x @ sep # n) = x @ [sep]"
    using dirname_head [OF assms(2), of x] by (simp only: if_False simp_thms)
  then show ?thesis using j x by simp
qed

lemma dirname_child_plain:
  assumes "n \<noteq> []" and "sep \<notin> set n" and "r \<noteq> []" and "last r \<noteq> sep"
  shows "dirname (join r n) = r"
proof -
  have j: "join r n = r @ sep # n" using join_child [OF assms(1,2,3)] assms(4) by simp
  have "last r \<in> set r" using assms(3) by simp
  then have "r @ [sep] \<noteq> replicate (Suc (length r)) sep"
  proof -
    have "set (replicate (Suc (length r)) sep) \<subseteq> {sep}" by auto
    moreover have "last r \<in> set (r @ [sep])" using \<open>last r \<in> set r\<close> by simp
    ultimately show ?thesis using assms(4) by (metis singletonD subsetD)
  qed
  then have "dirname (r @ sep # n) = rstrip_sep (r @ [sep])"
    using dirname_head [OF assms(2), of r] by (simp only: if_True simp_thms)
  then show ?thesis using j rstrip_sep_snoc [OF assms(3,4)] by simp
qed

lemma basename_child:
  assumes "n \<noteq> []" and "sep \<notin> set n" and "r \<noteq> []"
  shows "basename (join r n) = n"
proof (cases "last r = sep")
  case True
  obtain x where x: "r = x @ [sep]" using True assms(3) by (metis append_butlast_last_id)
  have "join r n = x @ sep # n" using join_child [OF assms] True x by simp
  then show ?thesis using basename_append [OF assms(2), of x] by simp
next
  case False
  then have "join r n = r @ sep # n" using join_child [OF assms] by simp
  then show ?thesis using basename_append [OF assms(2), of r] by simp
qed

lemma child_of_normpath:
  assumes "n \<noteq> []" and "sep \<notin> set n"
  shows "dirname (join (normpath p) n) = normpath p" and "basename (join (normpath p) n) = n"
proof -
  have ne: "normpath p \<noteq> []" by (rule normpath_nonempty)
  show "basename (join (normpath p) n) = n" by (rule basename_child [OF assms ne])
  show "dirname (join (normpath p) n) = normpath p"
  proof (cases "last (normpath p) = sep")
    case True
    then have "normpath p = replicate (length (normpath p)) sep"
      using normpath_trailing_sep [of p] ne by (simp add: endswith_last)
    then show ?thesis by (rule dirname_child_slashes [OF assms ne])
  next
    case False
    then show ?thesis by (rule dirname_child_plain [OF assms ne])
  qed
qed

lemma get_dir_from_path_normal: "normpath (get_dir_from_path fs p) = get_dir_from_path fs p"
  by (simp add: get_dir_from_path_def normpath_idempotent)

lemma isfile_not_isdir: "isfile fs p \<Longrightarrow> \<not> isdir fs p"
  by (auto simp: isfile_def isdir_def split: option.splits)

lemma file_entry_of_file:
  "isfile fs c \<Longrightarrow> file_entry fs c = (basename c, normpath (dirname c))"
  by (simp add: file_entry_def get_dir_from_path_def isfile_not_isdir Let_def)

lemma file_entry_of_dir:
  "isdir fs c \<Longrightarrow> file_entry fs c = (basename c @ ''/'', normpath c)"
  using isfile_not_isdir [of fs c] by (auto simp add: file_entry_def get_dir_from_path_def Let_def)

lemma get_path_file:
  assumes "n \<noteq> []" "sep \<notin> set n" "n \<noteq> pardir"
  shows "get_path (n, r) = join r n"
proof -
  have "last n \<in> set n" using assms(1) by simp
  then have "last n \<noteq> sep" using assms(2) by metis
  then have "\<not> endswith n [sep]" by (simp add: endswith_last)
  then have "\<not> endswith n ''/''" by (simp add: sep_def)
  then show ?thesis using assms(3) by (simp add: get_path_def)
qed

lemma get_path_dir: "get_path (n @ ''/'', r) = r"
  by (simp add: get_path_def endswith_def)

subsection \<open>The parent of an absolute normalised directory\<close>

lemma join_with_snoc: "cs \<noteq> [] \<Longrightarrow> join_with c (cs @ [w]) = join_with c cs @ c # w"
  by (induction c cs rule: join_with.induct) auto

lemma normpath_loop_append:
  "normpath_loop k acc (xs @ ys) = normpath_loop k (normpath_loop k acc xs) ys"
  by (induction xs arbitrary: acc) auto

lemma startswith_hd: "startswith s [c] \<longleftrightarrow> s \<noteq> [] \<and> hd s = c"
  by (cases s) (auto simp: startswith_def)

lemma normal_comps_append:
  "normal_comps k (xs @ ys) \<Longrightarrow> k \<noteq> 0 \<Longrightarrow> normal_comps k xs"
proof -
  assume a: "normal_comps k (xs @ ys)" and k: "k \<noteq> 0"
  then have "pardir \<notin> set xs" by (auto simp: normal_comps_def)
  then have "dotdots_first xs" by (induction xs) auto
  then show ?thesis using a k by (auto simp: normal_comps_def)
qed

lemma dirname_slashes: "dirname (replicate k sep) = replicate k sep"
proof -
  have "dropWhile (\<lambda>c. c \<noteq> sep) (replicate k sep) = replicate k sep"
    by (cases k) simp_all
  then show ?thesis by (simp add: dirname_def Let_def)
qed

lemma normpath_parent:
  assumes k: "0 < k" "k \<le> 2" and n: "normal_comps k cs"
  shows "normpath (join (replicate k sep @ join_with sep cs) pardir)
           = replicate k sep @ join_with sep (butlast cs)"
    and "dirname (replicate k sep @ join_with sep cs)
           = replicate k sep @ join_with sep (butlast cs)"
proof -
  let ?r = "replicate k sep @ join_with sep cs"
  have nopar: "pardir \<notin> set cs" using n k by (simp add: normal_comps_def)
  have sepfree: "\<forall>w \<in> set (cs @ [pardir]). sep \<notin> set w"
    using n by (auto simp: normal_comps_def pardir_def sep_def)
  have r_ne: "?r \<noteq> []" using k by simp
  have j: "join ?r pardir = replicate k sep @ join_with sep (cs @ [pardir])"
  proof (cases "cs = []")
    case True
    have "last (replicate k sep) = sep" using k by simp
    then show ?thesis
      using True k join_child [of pardir "replicate k sep"]
      by (simp add: pardir_def sep_def)
  next
    case False
    have "last ?r \<noteq> sep" using normal_join_hd [OF n False] by simp
    then show ?thesis
      using False join_child [of pardir ?r] r_ne
      by (simp add: join_with_snoc pardir_def sep_def)
  qed
  let ?s = "join_with sep (cs @ [pardir])"
  have hd_ne: "hd (cs @ [pardir]) \<noteq> []" "hd (hd (cs @ [pardir])) \<noteq> sep"
  proof -
    have "hd (cs @ [pardir]) \<in> set (cs @ [pardir])" by (rule hd_in_set) simp
    then have a: "hd (cs @ [pardir]) \<noteq> []" "sep \<notin> set (hd (cs @ [pardir]))"
      using n sepfree by (auto simp: normal_comps_def pardir_def)
    show "hd (cs @ [pardir]) \<noteq> []" by (rule a(1))
    have "hd (hd (cs @ [pardir])) \<in> set (hd (cs @ [pardir]))" using a(1) by simp
    then show "hd (hd (cs @ [pardir])) \<noteq> sep" using a(2) by metis
  qed
  have s_hd: "hd ?s \<noteq> sep" using hd_join_with [of "cs @ [pardir]" sep] hd_ne by simp
  have s_ne: "?s \<noteq> []" using join_with_Nil [of sep "cs @ [pardir]"] by (auto simp: pardir_def)
  have isl: "initial_slashes (replicate k sep @ ?s) = k"
    using initial_slashes_replicate [OF k(2), of ?s] s_hd by simp
  have sp: "split sep (replicate k sep @ ?s) = replicate k [] @ cs @ [pardir]"
    using split_join_with [of "cs @ [pardir]" sep] sepfree by (simp add: split_replicate_sep)
  have "normpath_loop k [] cs = cs" using normpath_loop_fixed [of k "[]" cs] n by simp
  then have "normpath_loop k [] (cs @ [pardir]) = normpath_loop k cs [pardir]"
    using normpath_loop_append [of k "[]" cs "[pardir]"] by simp
  moreover have "normpath_loop k cs [pardir] = butlast cs"
  proof (cases "cs = []")
    case True
    then show ?thesis using k by (simp add: pardir_def)
  next
    case False
    then have "last cs \<in> set cs" by simp
    then have "last cs \<noteq> pardir" using nopar by metis
    then show ?thesis using False k by (simp add: pardir_def)
  qed
  ultimately have lp: "normpath_loop k [] (replicate k [] @ cs @ [pardir]) = butlast cs"
    using normpath_loop_skip_empty [of k "[]" k "cs @ [pardir]"] by simp
  show "normpath (join ?r pardir) = replicate k sep @ join_with sep (butlast cs)"
    using j s_ne isl sp lp k by (simp add: normpath_def Let_def)
  show "dirname ?r = replicate k sep @ join_with sep (butlast cs)"
  proof (cases cs rule: rev_cases)
    case Nil
    then show ?thesis by (simp add: dirname_slashes)
  next
    case (snoc cs' c)
    have c: "c \<noteq> []" "sep \<notin> set c" using n snoc by (auto simp: normal_comps_def)
    have n': "normal_comps k cs'" using normal_comps_append [of k cs' "[c]"] n snoc k by simp
    show ?thesis
    proof (cases "cs' = []")
      case True
      have "join (replicate k sep) c = replicate k sep @ c"
        using join_child [OF c, of "replicate k sep"] k by simp
      then show ?thesis
        using dirname_child_slashes [OF c, of "replicate k sep"] k snoc True by simp
    next
      case False
      let ?x = "replicate k sep @ join_with sep cs'"
      have x: "?x \<noteq> []" "last ?x \<noteq> sep" using normal_join_hd [OF n' False] k by simp_all
      have "join ?x c = ?x @ sep # c" using join_child [OF c x(1)] x(2) by simp
      then show ?thesis
        using dirname_child_plain [OF c x] snoc False by (simp add: join_with_snoc)
    qed
  qed
qed

lemma parent_of_absolute:
  assumes "startswith (normpath p) [sep]"
  shows "abspath fs (join (normpath p) pardir) = dirname (normpath p)"
proof -
  from normpath_cases [of p] show ?thesis
  proof
    assume "normpath p = ''.''"
    then show ?thesis using assms by (simp add: startswith_def sep_def)
  next
    assume "\<exists>k cs. k \<le> 2 \<and> normal_comps k cs \<and> (0 < k \<or> cs \<noteq> [])
      \<and> normpath p = replicate k sep @ join_with sep cs"
    then obtain k cs where kc: "k \<le> 2" "normal_comps k cs" "0 < k \<or> cs \<noteq> []"
      "normpath p = replicate k sep @ join_with sep cs" by blast
    have k: "0 < k"
    proof (rule ccontr)
      assume "\<not> 0 < k"
      then have "k = 0" "cs \<noteq> []" using kc(3) by simp_all
      then show False using normal_join_hd [OF kc(2)] kc(4) assms by (simp add: startswith_hd)
    qed
    have abs: "startswith (join (normpath p) pardir) [sep]"
      using assms normpath_nonempty [of p] join_child [of pardir "normpath p"]
      by (auto simp: startswith_hd pardir_def sep_def)
    show ?thesis
      using normpath_parent [OF k kc(1,2)] kc(4) abs by (simp add: abspath_def)
  qed
qed

section \<open>The listing\<close>

lemmas path_defs = get_dir_from_path_def isfile_def isdir_def normpath_def initial_slashes_def
   startswith_def endswith_def sep_def join_def pardir_def abspath_def samefile_def dirname_def
   rstrip_sep_def basename_def extsep_def splitext_ext_def lower_def lower_char_def

lemmas listing_defs = get_listing_def skip_file_def is_same_file_def file_entry_def exists_def
  Let_def mk_stat_def session_helper_def exclude_loop.simps

lemma exists_returns: "exists fs p = Inr (os_stat fs p \<noteq> None)"
  by (simp add: exists_def split: option.splits)

lemma skip_file_never: "skip_file fs p = False"
  by (simp add: skip_file_def exists_returns)

lemma add_files_eq:
  "add_files fs cur cs = map (file_entry fs) (filter (\<lambda>c. \<not> is_same_file fs c cur) cs)"
  by (induction cs) (simp_all add: skip_file_never)

lemma exclude_loop_subset: "set (exclude_loop ex xs i) \<subseteq> set xs"
proof (induction ex xs i rule: exclude_loop.induct)
  case (1 ex xs i)
  show ?case
  proof (cases "i < length xs")
    case False
    then show ?thesis by (subst exclude_loop.simps) simp
  next
    case True
    show ?thesis
    proof (cases "''*'' @ lower (splitext_ext (xs ! i)) \<in> set ex")
      case ex: True
      have "set (exclude_loop ex (remove1 (xs ! i) xs) (Suc i)) \<subseteq> set (remove1 (xs ! i) xs)"
        using True ex "1.IH"(1) by simp
      moreover have "set (remove1 (xs ! i) xs) \<subseteq> set xs" by (rule set_remove1_subset)
      moreover have "exclude_loop ex xs i = exclude_loop ex (remove1 (xs ! i) xs) (Suc i)"
        using True ex by (subst exclude_loop.simps) (simp add: Let_def)
      ultimately show ?thesis by auto
    next
      case nex: False
      have "exclude_loop ex xs i = exclude_loop ex xs (Suc i)"
        using True nex by (subst exclude_loop.simps) (simp add: Let_def)
      then show ?thesis using True nex "1.IH"(2) by simp
    qed
  qed
qed

lemma shown_children_subset:
  "set (shown_children h fs dir) \<subseteq> set (glob_glob fs (join dir ''*''))"
  by (simp add: shown_children_def exclude_loop_subset)

text \<open>
  \<open>get_listing\<close> in closed form: it raises what \<open>samefile\<close> raises on the resolved
  directory and its parent; otherwise the list stored under \<open>current_file\<close> is the parent
  entry, unless directory and parent are the same file, followed by the entries of the
  shown children that are not the same file as \<open>current_file\<close>, in enumeration order.
\<close>

lemma get_listing_eq:
  "get_listing h fs cur =
     (case samefile fs (get_dir_from_path fs cur)
             (abspath fs (join (get_dir_from_path fs cur) pardir)) of
        Inl e \<Rightarrow> Inl e
      | Inr same \<Rightarrow>
          Inr [cur \<mapsto>
                 (if same then [] else [(pardir, abspath fs (join (get_dir_from_path fs cur) pardir))])
                 @ map (file_entry fs)
                     (filter (\<lambda>c. \<not> is_same_file fs c cur)
                        (shown_children h fs (get_dir_from_path fs cur)))])"
  by (simp add: get_listing_def Let_def add_files_eq shown_children_def split: sum.splits)

text \<open>The listing of \<open>/a\<close> in \<open>tree_fs\<close>, evaluated.\<close>

lemma tree_fs_dir_a: "get_dir_from_path tree_fs ''/a'' = ''/a''"
  by (simp add: path_defs tree_fs_def mk_stat_def Let_def)

lemma tree_fs_shown_a:
  "shown_children session_helper tree_fs ''/a'' = [''/a/b'', ''/a/c.txt'']"
  by (simp add: shown_children_def tree_fs_def session_helper_def join_def startswith_def
        endswith_def sep_def exclude_loop.simps path_defs Let_def)

lemma tree_fs_listing_a: "get_listing session_helper tree_fs ''/a'' = Inr tree_stack"
  by (simp add: listing_defs path_defs tree_fs_def tree_stack_def)

subsection \<open>Entries of the children\<close>

text \<open>
  C1, as amended: for a child \<open>c\<close> that is a regular file, enumerated as
  \<open>join directory name\<close> under the resolved directory of the listing, the entry is the
  file's name paired with that directory (which is \<open>normpath (dirname c)\<close>), not with the
  file's own path; the entry is in the listing when the child is shown and is not the
  current file, and \<open>get_path\<close> maps the entry back to the path \<open>c\<close> of the file.
\<close>

theorem file_child_entry:
  assumes isf: "isfile fs c"
      and child: "c = join (get_dir_from_path fs current_file) name"
      and name: "name \<noteq> []" "sep \<notin> set name" "name \<noteq> pardir"
      and shown: "c \<in> set (shown_children h fs (get_dir_from_path fs current_file))"
      and other: "\<not> is_same_file fs c current_file"
      and listing: "get_listing h fs current_file = Inr stack"
  shows "file_entry fs c = (name, get_dir_from_path fs current_file)
         \<and> (\<exists>items. stack current_file = Some items \<and> file_entry fs c \<in> set items)
         \<and> get_path (file_entry fs c) = c"
proof -
  obtain x where x: "get_dir_from_path fs current_file = normpath x"
    by (simp add: get_dir_from_path_def)
  have d: "dirname c = normpath x" and b: "basename c = name"
    using child_of_normpath [OF name(1,2), of x] child x by simp_all
  have entry: "file_entry fs c = (name, get_dir_from_path fs current_file)"
    using file_entry_of_file [OF isf] d b x by (simp add: normpath_idempotent)
  have "get_path (name, get_dir_from_path fs current_file) = c"
    using get_path_file [OF name] child by simp
  moreover have "\<exists>items. stack current_file = Some items \<and> file_entry fs c \<in> set items"
    using listing shown other by (auto simp: get_listing_eq split: sum.splits)
  ultimately show ?thesis using entry by simp
qed

theorem file_child_entry_witness:
  "file_entry tree_fs ''/a/c.txt'' = (''c.txt'', get_dir_from_path tree_fs ''/a'')
   \<and> (\<exists>items. tree_stack ''/a'' = Some items \<and> file_entry tree_fs ''/a/c.txt'' \<in> set items)
   \<and> get_path (file_entry tree_fs ''/a/c.txt'') = ''/a/c.txt''"
proof -
  have isf: "isfile tree_fs ''/a/c.txt''"
    by (simp add: isfile_def tree_fs_def mk_stat_def)
  have child: "''/a/c.txt'' = join (get_dir_from_path tree_fs ''/a'') ''c.txt''"
    by (simp add: tree_fs_dir_a) (simp add: join_def startswith_def endswith_def sep_def)
  have name: "''c.txt'' \<noteq> []" "sep \<notin> set ''c.txt''" "''c.txt'' \<noteq> pardir"
    by (simp_all add: sep_def pardir_def)
  have shown: "''/a/c.txt'' \<in> set (shown_children session_helper tree_fs
                                      (get_dir_from_path tree_fs ''/a''))"
    by (simp add: tree_fs_dir_a tree_fs_shown_a)
  have other: "\<not> is_same_file tree_fs ''/a/c.txt'' ''/a''"
    by (simp add: is_same_file_def samefile_def tree_fs_def mk_stat_def)
  show ?thesis
    by (rule file_child_entry [OF isf child name shown other tree_fs_listing_a])
qed

text \<open>
  The claim as written fails on the scenario of the specification: the entry of the file
  \<open>/a/c.txt\<close> in the listing of \<open>/a\<close> carries the directory \<open>/a\<close>.
\<close>

theorem file_entry_counterexample:
  "isfile tree_fs ''/a/c.txt''
   \<and> get_listing session_helper tree_fs ''/a'' =
       Inr [''/a'' \<mapsto> [(''..'', ''/''), (''b/'', ''/a/b''), (''c.txt'', ''/a'')]]
   \<and> file_entry tree_fs ''/a/c.txt'' = (''c.txt'', ''/a'')
   \<and> file_entry tree_fs ''/a/c.txt'' \<noteq> (basename ''/a/c.txt'', ''/a/c.txt'')"
  by (simp add: listing_defs path_defs tree_fs_def)

text \<open>The entry of a child that is a directory carries the normalised path of that child.\<close>

lemma directory_child_entry:
  assumes "isdir fs c"
  shows "file_entry fs c = (basename c @ ''/'', normpath c)"
    and "get_path (file_entry fs c) = normpath c"
  using assms by (simp_all add: file_entry_of_dir get_path_dir)

subsection \<open>The exclusion filter\<close>

text \<open>
  C2: with \<open>*.png\<close> excluded and the children \<open>/d/a.png\<close>, \<open>/d/b.png\<close> enumerated in
  this order, the listing of \<open>/d\<close> still holds an entry for \<open>b.png\<close>: removing
  \<open>a.png\<close> during the iteration moves \<open>b.png\<close> to the index that was just visited.
\<close>

theorem exclusion_skips_adjacent_match:
  "get_listing session_helper png_fs ''/d'' = Inr [''/d'' \<mapsto> [(''..'', ''/''), (''b.png'', ''/d'')]]
   \<and> ''*'' @ lower (splitext_ext ''/d/b.png'') \<in> set (excluded_extensions session_helper)"
  by (simp add: listing_defs path_defs png_fs_def)

subsection \<open>Children that cannot be probed\<close>

text \<open>
  C6: \<open>skip_file\<close> answers \<open>False\<close> for the broken link \<open>/d/dangling\<close>, on which
  \<open>os.stat\<close> raises, and the listing of \<open>/d\<close> holds an entry for it.
\<close>

theorem unreadable_child_is_listed:
  "os_stat dangling_fs ''/d/dangling'' = None
   \<and> skip_file dangling_fs ''/d/dangling'' = False
   \<and> get_listing session_helper dangling_fs ''/d'' =
       Inr [''/d'' \<mapsto> [(''..'', ''/''), (''dangling'', ''/d/dangling''), (''x.txt'', ''/d'')]]"
  by (simp add: listing_defs path_defs dangling_fs_def)

subsection \<open>The parent entry\<close>

text \<open>
  C3: when \<open>samefile\<close> answers for the resolved directory and its parent, the listing
  is produced. If the two are not the same file, entry 0 is the parent entry
  \<open>(pardir, parent)\<close> with \<open>parent = abspath (join directory pardir)\<close>, which for an
  absolute directory is \<open>dirname directory\<close>. If they are the same file (a filesystem
  root), no entry of the listing has the label \<open>..\<close>. Here \<open>glob\<close> is taken to return
  no child named \<open>..\<close> (the pattern \<open>*\<close> matches no name that starts with a dot).
\<close>

theorem parent_entry_first:
  assumes same: "samefile fs (get_dir_from_path fs d)
                   (abspath fs (join (get_dir_from_path fs d) pardir)) = Inr same"
      and names: "\<forall>c \<in> set (glob_glob fs (join (get_dir_from_path fs d) ''*'')). basename c \<noteq> pardir"
  shows "\<exists>items. get_listing h fs d = Inr [d \<mapsto> items]
           \<and> (if same then \<forall>e \<in> set items. fst e \<noteq> pardir
               else items \<noteq> []
                    \<and> items ! 0 = (pardir, abspath fs (join (get_dir_from_path fs d) pardir))
                    \<and> (startswith (get_dir_from_path fs d) [sep]
                           \<longrightarrow> snd (items ! 0) = dirname (get_dir_from_path fs d)))"
proof -
  have label: "fst (file_entry fs c) \<noteq> pardir"
    if "c \<in> set (shown_children h fs (get_dir_from_path fs d))" for c
  proof -
    have "basename c \<noteq> pardir" using that names shown_children_subset [of h fs] by blast
    moreover have "basename c @ ''/'' \<noteq> pardir"
      by (cases "basename c" rule: rev_cases) (simp_all add: pardir_def)
    ultimately show ?thesis by (simp add: file_entry_def Let_def)
  qed
  let ?kept = "filter (\<lambda>c. \<not> is_same_file fs c d)
                 (shown_children h fs (get_dir_from_path fs d))"
  let ?parent = "abspath fs (join (get_dir_from_path fs d) pardir)"
  show ?thesis
  proof (cases same)
    case True
    have "get_listing h fs d = Inr [d \<mapsto> map (file_entry fs) ?kept]"
      using same True by (simp add: get_listing_eq)
    moreover have "\<forall>e \<in> set (map (file_entry fs) ?kept). fst e \<noteq> pardir"
      using label by auto
    ultimately show ?thesis using True by (intro exI [of _ "map (file_entry fs) ?kept"]) simp
  next
    case False
    have "get_listing h fs d = Inr [d \<mapsto> (pardir, ?parent) # map (file_entry fs) ?kept]"
      using same False by (simp add: get_listing_eq)
    moreover have "?parent = dirname (get_dir_from_path fs d)"
      if "startswith (get_dir_from_path fs d) [sep]"
      using that parent_of_absolute [of "if isfile fs d then dirname d else d" fs]
      by (simp add: get_dir_from_path_def)
    ultimately show ?thesis
      using False by (intro exI [of _ "(pardir, ?parent) # map (file_entry fs) ?kept"]) simp
  qed
qed

theorem parent_entry_first_witness:
  "(\<exists>items. get_listing session_helper tree_fs ''/a'' = Inr [''/a'' \<mapsto> items]
             \<and> items \<noteq> [] \<and> items ! 0 = (pardir, ''/'')
             \<and> snd (items ! 0) = dirname (get_dir_from_path tree_fs ''/a''))
   \<and> (\<exists>items. get_listing session_helper tree_fs ''/'' = Inr [''/'' \<mapsto> items]
             \<and> (\<forall>e \<in> set items. fst e \<noteq> pardir))"
proof -
  have root: "get_dir_from_path tree_fs ''/'' = ''/''"
    by (simp add: path_defs tree_fs_def mk_stat_def Let_def)
  have up_a: "abspath tree_fs (join ''/a'' pardir) = ''/''"
    and up_root: "abspath tree_fs (join ''/'' pardir) = ''/''"
    by (simp_all add: path_defs Let_def)
  have not_same: "samefile tree_fs (get_dir_from_path tree_fs ''/a'')
                    (abspath tree_fs (join (get_dir_from_path tree_fs ''/a'') pardir)) = Inr False"
    by (simp add: tree_fs_dir_a up_a) (simp add: samefile_def tree_fs_def mk_stat_def)
  have same: "samefile tree_fs (get_dir_from_path tree_fs ''/'')
                (abspath tree_fs (join (get_dir_from_path tree_fs ''/'') pardir)) = Inr True"
    by (simp add: root up_root) (simp add: samefile_def tree_fs_def mk_stat_def)
  have names_a: "\<forall>c \<in> set (glob_glob tree_fs (join (get_dir_from_path tree_fs ''/a'') ''*'')).
                   basename c \<noteq> pardir"
    by (simp add: tree_fs_dir_a) (simp add: tree_fs_def path_defs)
  have names_root: "\<forall>c \<in> set (glob_glob tree_fs (join (get_dir_from_path tree_fs ''/'') ''*'')).
                      basename c \<noteq> pardir"
    by (simp add: root) (simp add: tree_fs_def path_defs)
  from parent_entry_first [where h = session_helper, OF not_same names_a]
       parent_entry_first [where h = session_helper, OF same names_root]
  show ?thesis by (auto simp: tree_fs_dir_a up_a startswith_def sep_def)
qed

subsection \<open>Listing a file and listing its directory\<close>

text \<open>
  C4, as amended: for a regular file \<open>f\<close> whose containing directory \<open>dirname f\<close> has no
  shown child that is the same file as the directory itself, both listings raise the
  same error, or they have the same parent part \<open>par\<close> and the listing of \<open>f\<close> is the
  listing of the directory without the entries of the children that are the same file
  as \<open>f\<close>.
\<close>

theorem listing_of_file_vs_directory:
  assumes isf: "isfile fs f"
      and nodir: "\<not> isfile fs (dirname f)"
      and noself: "\<forall>c \<in> set (shown_children h fs (normpath (dirname f))).
                     \<not> is_same_file fs c (dirname f)"
  shows "(\<exists>e. get_listing h fs f = Inl e \<and> get_listing h fs (dirname f) = Inl e)
         \<or> (\<exists>par. get_listing h fs (dirname f) =
                     Inr [dirname f \<mapsto>
                            par @ map (file_entry fs) (shown_children h fs (normpath (dirname f)))]
                 \<and> get_listing h fs f =
                     Inr [f \<mapsto>
                            par @ map (file_entry fs)
                                    (filter (\<lambda>c. \<not> is_same_file fs c f)
                                       (shown_children h fs (normpath (dirname f))))])"
proof -
  have pf: "get_dir_from_path fs f = normpath (dirname f)"
    using isf by (simp add: get_dir_from_path_def)
  have pd: "get_dir_from_path fs (dirname f) = normpath (dirname f)"
    using nodir by (simp add: get_dir_from_path_def)
  have keep: "filter (\<lambda>c. \<not> is_same_file fs c (dirname f))
                (shown_children h fs (normpath (dirname f)))
              = shown_children h fs (normpath (dirname f))"
    using noself by (simp add: filter_id_conv)
  let ?parent = "abspath fs (join (normpath (dirname f)) pardir)"
  show ?thesis
  proof (cases "samefile fs (normpath (dirname f)) ?parent")
    case (Inl e)
    then show ?thesis by (simp add: get_listing_eq pf pd)
  next
    case (Inr same)
    show ?thesis
      using Inr
      by (intro disjI2 exI [of _ "if same then [] else [(pardir, ?parent)]"])
         (simp add: get_listing_eq pf pd keep)
  qed
qed

theorem listing_of_file_vs_directory_witness:
  "\<exists>par. get_listing session_helper tree_fs (dirname ''/a/c.txt'') =
            Inr [dirname ''/a/c.txt'' \<mapsto> par @ map (file_entry tree_fs) [''/a/b'', ''/a/c.txt'']]
       \<and> get_listing session_helper tree_fs ''/a/c.txt'' =
            Inr [''/a/c.txt'' \<mapsto> par @ map (file_entry tree_fs) [''/a/b'']]"
proof -
  have dn: "dirname ''/a/c.txt'' = ''/a''" and np: "normpath ''/a'' = ''/a''"
    by (simp_all add: path_defs Let_def)
  have isf: "isfile tree_fs ''/a/c.txt''"
    by (simp add: isfile_def tree_fs_def mk_stat_def)
  have nodir: "\<not> isfile tree_fs (dirname ''/a/c.txt'')"
    by (simp add: dn) (simp add: isfile_def tree_fs_def mk_stat_def)
  have same_b: "\<not> is_same_file tree_fs ''/a/b'' ''/a''" "\<not> is_same_file tree_fs ''/a/c.txt'' ''/a''"
    and self: "\<not> is_same_file tree_fs ''/a/b'' ''/a/c.txt''" "is_same_file tree_fs ''/a/c.txt'' ''/a/c.txt''"
    by (simp_all add: is_same_file_def samefile_def tree_fs_def mk_stat_def)
  have noself: "\<forall>c \<in> set (shown_children session_helper tree_fs (normpath (dirname ''/a/c.txt''))).
                  \<not> is_same_file tree_fs c (dirname ''/a/c.txt'')"
    by (simp add: dn np tree_fs_shown_a same_b)
  have ok: "get_listing session_helper tree_fs (dirname ''/a/c.txt'') = Inr tree_stack"
    by (simp add: dn tree_fs_listing_a)
  from listing_of_file_vs_directory [where h = session_helper, OF isf nodir noself]
  show ?thesis by (simp add: ok) (simp add: dn np tree_fs_shown_a self)
qed

text \<open>
  Without the condition the claim fails: in \<open>loop_fs\<close> the link \<open>/a/self\<close> is the same
  file as \<open>/a\<close>, so the listing of \<open>/a\<close> leaves it out while the listing of
  \<open>/a/f.txt\<close> holds its entry, which no removal from the listing of \<open>/a\<close> can produce.
\<close>

theorem listing_of_file_counterexample:
  "isfile loop_fs ''/a/f.txt'' \<and> dirname ''/a/f.txt'' = ''/a''
   \<and> get_listing session_helper loop_fs ''/a/f.txt'' =
       Inr [''/a/f.txt'' \<mapsto> [(''..'', ''/''), (''self/'', ''/a/self'')]]
   \<and> get_listing session_helper loop_fs ''/a'' =
       Inr [''/a'' \<mapsto> [(''..'', ''/''), (''f.txt'', ''/a'')]]
   \<and> \<not> set [(''..'', ''/''), (''self/'', ''/a/self'')]
         \<subseteq> set [(''..'', ''/''), (''f.txt'', ''/a'')]"
  by (simp add: listing_defs path_defs loop_fs_def)

subsection \<open>Resolving a path to its directory\<close>

text \<open>
  C10, as amended: \<open>get_dir_from_path\<close> is idempotent at every path whose resolved
  directory is not itself a regular file.
\<close>

theorem get_dir_from_path_idempotent:
  assumes "\<not> isfile fs (get_dir_from_path fs p)"
  shows "get_dir_from_path fs (get_dir_from_path fs p) = get_dir_from_path fs p"
proof -
  have "get_dir_from_path fs (get_dir_from_path fs p) = normpath (get_dir_from_path fs p)"
    using assms by (simp add: get_dir_from_path_def)
  then show ?thesis by (simp add: get_dir_from_path_normal)
qed

theorem get_dir_from_path_idempotent_witness:
  "get_dir_from_path tree_fs (get_dir_from_path tree_fs ''/a/c.txt'')
     = get_dir_from_path tree_fs ''/a/c.txt''"
proof -
  have "get_dir_from_path tree_fs ''/a/c.txt'' = ''/a''"
    by (simp add: path_defs tree_fs_def mk_stat_def Let_def)
  then have "\<not> isfile tree_fs (get_dir_from_path tree_fs ''/a/c.txt'')"
    by (simp add: isfile_def tree_fs_def mk_stat_def)
  then show ?thesis by (rule get_dir_from_path_idempotent)
qed

text \<open>
  For every path the claim fails: \<open>/a/c.txt/\<close> is not a file (\<open>os.stat\<close> raises on it),
  its resolved directory \<open>/a/c.txt\<close> is one, and resolving again gives \<open>/a\<close>.
\<close>

theorem get_dir_from_path_not_idempotent:
  "get_dir_from_path tree_fs ''/a/c.txt/'' = ''/a/c.txt''
   \<and> get_dir_from_path tree_fs (get_dir_from_path tree_fs ''/a/c.txt/'') = ''/a''"
  by (simp add: path_defs tree_fs_def mk_stat_def Let_def)

section \<open>The session state\<close>

lemma reset_fields:
  "preview_file_path (reset h) = None"
  "file_navigation_active (reset h) = False"
  "calling_view (reset h) = None"
  "calling_view_is_empty (reset h) = None"
  "excluded_extensions (reset h) = excluded_extensions h"
  "calling_view_index (reset h) = calling_view_index h"
  by (simp_all add: reset_def set_plugin_visibility_def)

lemma reset_idempotent: "reset (reset h) = reset h"
  by (simp add: reset_def set_plugin_visibility_def)

lemma track_calling_view_origin:
  assumes "active_view w = Some v"
  shows "track_calling_view h w =
           Inr (h\<lparr>calling_view := Some v, calling_view_index := Some (get_view_index w v),
                  calling_view_is_empty := Some (views w = [])\<rparr>, file_name w v)"
  using assms by (simp add: track_calling_view_def)

text \<open>
  Highlighting an entry and committing on a directory keep the origin of the session, so
  a later cancel acts on the view recorded by \<open>track_calling_view\<close>.
\<close>

lemma show_preview_keeps_origin:
  assumes "show_preview h fs stack p i = Inr (h', calls)"
  shows "calling_view h' = calling_view h \<and> calling_view_is_empty h' = calling_view_is_empty h
         \<and> calling_view_index h' = calling_view_index h"
  using assms
  by (auto simp: show_preview_def set_preview_def set_plugin_visibility_def Let_def
           split: if_splits sum.splits)

lemma open_directory_keeps_helper:
  assumes "open_selected_file h fs stack p i = Inr (h', calls)"
      and "0 \<le> i" and "stack_item stack p i = Inr item" and "\<not> isfile fs (get_path item)"
  shows "h' = h \<and> calls = show_calling_view h @ [SetTimeoutAsync (get_path item)]"
  using assms by (auto simp: open_selected_file_def Let_def)



text \<open>
  C9: the quick-open command does nothing when the stored preview path is \<open>None\<close> or is
  not a regular file: it returns normally, the helper is unchanged and no host call is
  made.
\<close>

theorem quick_open_without_file_is_noop:
  assumes "case preview_file_path h of None \<Rightarrow> True | Some f \<Rightarrow> \<not> isfile fs f"
  shows "quick_open_run h w fs = Inr (h, [])"
  using assms
  by (auto simp: quick_open_run_def get_preview_path_def split: option.splits)

theorem quick_open_without_file_is_noop_witness:
  "quick_open_run fresh_helper preview_window tree_fs = Inr (fresh_helper, [])
   \<and> quick_open_run (session_helper\<lparr>preview_file_path := Some ''/a/b''\<rparr>) preview_window tree_fs
       = Inr (session_helper\<lparr>preview_file_path := Some ''/a/b''\<rparr>, [])"
  using quick_open_without_file_is_noop
          [where h = fresh_helper and fs = tree_fs and w = preview_window]
        quick_open_without_file_is_noop
          [where h = "session_helper\<lparr>preview_file_path := Some ''/a/b''\<rparr>"
             and fs = tree_fs and w = preview_window]
  by (simp add: fresh_helper_def session_helper_def tree_fs_def isfile_def mk_stat_def)

text \<open>
  C5: in a window without an active view, \<open>track_calling_view\<close> raises
  \<open>AttributeError\<close> (it calls \<open>file_name()\<close> on \<open>None\<close>) instead of returning \<open>None\<close>, and
  the \<open>run\<close> of the command raises with it, so the fallback to the working directory is
  not reached. With an active view that has no file name the fallback is taken.
\<close>

theorem track_calling_view_without_active_view:
  "track_calling_view fresh_helper no_tab_window = Inl AttributeError
   \<and> run fresh_helper no_tab_window tree_fs = Inl AttributeError"
  by (simp add: track_calling_view_def run_def no_tab_window_def)

lemma run_falls_back_to_cwd:
  assumes "active_view w = Some v" and "file_name w v = None"
      and "navigate (h\<lparr>calling_view := Some v, calling_view_index := Some (get_view_index w v),
                       calling_view_is_empty := Some (views w = [])\<rparr>) fs (getcwd fs)
             = Inr (stack, calls)"
  shows "run h w fs =
           Inr (h\<lparr>calling_view := Some v, calling_view_index := Some (get_view_index w v),
                  calling_view_is_empty := Some (views w = [])\<rparr>, stack, calls)"
  using assms by (simp add: run_def track_calling_view_def)


end
